theory Spec2Isabelle
  imports Main "HOL-Library.Word"
begin

section \<open>Python dictionaries\<close>

text \<open>
  A dict display \<^verbatim>\<open>{k1 : v1, k2 : v2, ...}\<close> is evaluated left to right, each entry
  stored in turn, so a later entry with an equal key replaces an earlier one.
\<close>

definition dict_literal :: "('k \<times> 'v) list \<Rightarrow> ('k \<rightharpoonup> 'v)" where
  "dict_literal kvs = foldl (\<lambda>m (k, v). m(k \<mapsto> v)) Map.empty kvs"

section \<open>packet/application/rpcordma\_const.py\<close>

subsection \<open>Enum rpc\_rdma\_errcode\<close>

definition ERR_VERS :: int where
  "ERR_VERS = 1"  \<comment> \<open>Value fixed for all versions\<close>

definition ERR_CHUNK :: int where
  "ERR_CHUNK = 2"

definition rpc_rdma_errcode_items :: "(int \<times> string) list" where
  "rpc_rdma_errcode_items =
    [(1, ''ERR_VERS''),
     (2, ''ERR_CHUNK'')]"

definition rpc_rdma_errcode :: "int \<rightharpoonup> string" where
  "rpc_rdma_errcode = dict_literal rpc_rdma_errcode_items"

subsection \<open>Enum rdma\_proc\<close>

definition RDMA_MSG :: int where
  "RDMA_MSG = 0"  \<comment> \<open>Value fixed for all versions\<close>

definition RDMA_NOMSG :: int where
  "RDMA_NOMSG = 1"  \<comment> \<open>Value fixed for all versions\<close>

definition RDMA_MSGP :: int where
  "RDMA_MSGP = 2"  \<comment> \<open>Not to be used\<close>

definition RDMA_DONE :: int where
  "RDMA_DONE = 3"  \<comment> \<open>Not to be used\<close>

definition RDMA_ERROR :: int where
  "RDMA_ERROR = 4"  \<comment> \<open>Value fixed for all versions\<close>

definition rdma_proc_items :: "(int \<times> string) list" where
  "rdma_proc_items =
    [(0, ''RDMA_MSG''),
     (1, ''RDMA_NOMSG''),
     (2, ''RDMA_MSGP''),
     (3, ''RDMA_DONE''),
     (4, ''RDMA_ERROR'')]"

definition rdma_proc :: "int \<rightharpoonup> string" where
  "rdma_proc = dict_literal rdma_proc_items"

section \<open>packet/nfs/nlm4\_const.py\<close>

subsection \<open>Enum nfs\_bool\<close>

definition FALSE :: int where
  "FALSE = 0"

definition TRUE :: int where
  "TRUE = 1"

definition nfs_bool_items :: "(int \<times> string) list" where
  "nfs_bool_items =
    [(0, ''FALSE''),
     (1, ''TRUE'')]"

definition nfs_bool :: "int \<rightharpoonup> string" where
  "nfs_bool = dict_literal nfs_bool_items"

subsection \<open>Sizes\<close>

definition LM_MAXSTRLEN :: int where
  "LM_MAXSTRLEN = 1024"

definition MAXNAMELEN :: int where
  "MAXNAMELEN = 1025"  \<comment> \<open>LM\_MAXSTRLEN + 1\<close>

definition MAXNETOBJ_SZ :: int where
  "MAXNETOBJ_SZ = 1024"

subsection \<open>Enum nlm4\_stats\<close>

definition NLM4_GRANTED :: int where
  "NLM4_GRANTED = 0"

definition NLM4_DENIED :: int where
  "NLM4_DENIED = 1"

definition NLM4_DENIED_NOLOCKS :: int where
  "NLM4_DENIED_NOLOCKS = 2"

definition NLM4_BLOCKED :: int where
  "NLM4_BLOCKED = 3"

definition NLM4_DENIED_GRACE_PERIOD :: int where
  "NLM4_DENIED_GRACE_PERIOD = 4"

definition NLM4_DEADLCK :: int where
  "NLM4_DEADLCK = 5"

definition NLM4_ROFS :: int where
  "NLM4_ROFS = 6"

definition NLM4_STALE_FH :: int where
  "NLM4_STALE_FH = 7"

definition NLM4_FBIG :: int where
  "NLM4_FBIG = 8"

definition NLM4_FAILED :: int where
  "NLM4_FAILED = 9"

definition nlm4_stats_items :: "(int \<times> string) list" where
  "nlm4_stats_items =
    [(0, ''NLM4_GRANTED''),
     (1, ''NLM4_DENIED''),
     (2, ''NLM4_DENIED_NOLOCKS''),
     (3, ''NLM4_BLOCKED''),
     (4, ''NLM4_DENIED_GRACE_PERIOD''),
     (5, ''NLM4_DEADLCK''),
     (6, ''NLM4_ROFS''),
     (7, ''NLM4_STALE_FH''),
     (8, ''NLM4_FBIG''),
     (9, ''NLM4_FAILED'')]"

definition nlm4_stats :: "int \<rightharpoonup> string" where
  "nlm4_stats = dict_literal nlm4_stats_items"

subsection \<open>Enum fsh4\_mode\<close>

definition fsm_DN :: int where
  "fsm_DN = 0"

definition fsm_DR :: int where
  "fsm_DR = 1"

definition fsm_DW :: int where
  "fsm_DW = 2"

definition fsm_DRW :: int where
  "fsm_DRW = 3"

definition fsh4_mode_items :: "(int \<times> string) list" where
  "fsh4_mode_items =
    [(0, ''fsm_DN''),
     (1, ''fsm_DR''),
     (2, ''fsm_DW''),
     (3, ''fsm_DRW'')]"

definition fsh4_mode :: "int \<rightharpoonup> string" where
  "fsh4_mode = dict_literal fsh4_mode_items"

subsection \<open>Enum fsh4\_access\<close>

definition fsa_NONE :: int where
  "fsa_NONE = 0"

definition fsa_R :: int where
  "fsa_R = 1"

definition fsa_W :: int where
  "fsa_W = 2"

definition fsa_RW :: int where
  "fsa_RW = 3"

definition fsh4_access_items :: "(int \<times> string) list" where
  "fsh4_access_items =
    [(0, ''fsa_NONE''),
     (1, ''fsa_R''),
     (2, ''fsa_W''),
     (3, ''fsa_RW'')]"

definition fsh4_access :: "int \<rightharpoonup> string" where
  "fsh4_access = dict_literal fsh4_access_items"

subsection \<open>Enum nlm\_proc4\<close>

definition NLMPROC4_NULL :: int where
  "NLMPROC4_NULL = 0"

definition NLMPROC4_TEST :: int where
  "NLMPROC4_TEST = 1"

definition NLMPROC4_LOCK :: int where
  "NLMPROC4_LOCK = 2"

definition NLMPROC4_CANCEL :: int where
  "NLMPROC4_CANCEL = 3"

definition NLMPROC4_UNLOCK :: int where
  "NLMPROC4_UNLOCK = 4"

definition NLMPROC4_GRANTED :: int where
  "NLMPROC4_GRANTED = 5"

definition NLMPROC4_TEST_MSG :: int where
  "NLMPROC4_TEST_MSG = 6"

definition NLMPROC4_LOCK_MSG :: int where
  "NLMPROC4_LOCK_MSG = 7"

definition NLMPROC4_CANCEL_MSG :: int where
  "NLMPROC4_CANCEL_MSG = 8"

definition NLMPROC4_UNLOCK_MSG :: int where
  "NLMPROC4_UNLOCK_MSG = 9"

definition NLMPROC4_GRANTED_MSG :: int where
  "NLMPROC4_GRANTED_MSG = 10"

definition NLMPROC4_TEST_RES :: int where
  "NLMPROC4_TEST_RES = 11"

definition NLMPROC4_LOCK_RES :: int where
  "NLMPROC4_LOCK_RES = 12"

definition NLMPROC4_CANCEL_RES :: int where
  "NLMPROC4_CANCEL_RES = 13"

definition NLMPROC4_UNLOCK_RES :: int where
  "NLMPROC4_UNLOCK_RES = 14"

definition NLMPROC4_GRANTED_RES :: int where
  "NLMPROC4_GRANTED_RES = 15"

definition NLMPROC4_SHARE :: int where
  "NLMPROC4_SHARE = 20"

definition NLMPROC4_UNSHARE :: int where
  "NLMPROC4_UNSHARE = 21"

definition NLMPROC4_NM_LOCK :: int where
  "NLMPROC4_NM_LOCK = 22"

definition NLMPROC4_FREE_ALL :: int where
  "NLMPROC4_FREE_ALL = 23"

definition nlm_proc4_items :: "(int \<times> string) list" where
  "nlm_proc4_items =
    [( 0, ''NLMPROC4_NULL''),
     ( 1, ''NLMPROC4_TEST''),
     ( 2, ''NLMPROC4_LOCK''),
     ( 3, ''NLMPROC4_CANCEL''),
     ( 4, ''NLMPROC4_UNLOCK''),
     ( 5, ''NLMPROC4_GRANTED''),
     ( 6, ''NLMPROC4_TEST_MSG''),
     ( 7, ''NLMPROC4_LOCK_MSG''),
     ( 8, ''NLMPROC4_CANCEL_MSG''),
     ( 9, ''NLMPROC4_UNLOCK_MSG''),
     (10, ''NLMPROC4_GRANTED_MSG''),
     (11, ''NLMPROC4_TEST_RES''),
     (12, ''NLMPROC4_LOCK_RES''),
     (13, ''NLMPROC4_CANCEL_RES''),
     (14, ''NLMPROC4_UNLOCK_RES''),
     (15, ''NLMPROC4_GRANTED_RES''),
     (20, ''NLMPROC4_SHARE''),
     (21, ''NLMPROC4_UNSHARE''),
     (22, ''NLMPROC4_NM_LOCK''),
     (23, ''NLMPROC4_FREE_ALL'')]"

definition nlm_proc4 :: "int \<rightharpoonup> string" where
  "nlm_proc4 = dict_literal nlm_proc4_items"

section \<open>The enums of the two modules\<close>

text \<open>
  Each \<^verbatim>\<open># Enum X\<close> section of a module binds module-level names to integers and
  then defines the dict \<^verbatim>\<open>X\<close>. The seven sections:
\<close>

datatype protocol =
  Rpc_rdma_errcode | Rdma_proc | Nfs_bool | Nlm4_stats | Fsh4_mode | Fsh4_access | Nlm_proc4

text \<open>The entries of the dict display of a section, as written.\<close>

fun table_items :: "protocol \<Rightarrow> (int \<times> string) list" where
  "table_items Rpc_rdma_errcode = rpc_rdma_errcode_items"
| "table_items Rdma_proc = rdma_proc_items"
| "table_items Nfs_bool = nfs_bool_items"
| "table_items Nlm4_stats = nlm4_stats_items"
| "table_items Fsh4_mode = fsh4_mode_items"
| "table_items Fsh4_access = fsh4_access_items"
| "table_items Nlm_proc4 = nlm_proc4_items"

text \<open>The dict a section defines.\<close>

fun table_of :: "protocol \<Rightarrow> (int \<rightharpoonup> string)" where
  "table_of Rpc_rdma_errcode = rpc_rdma_errcode"
| "table_of Rdma_proc = rdma_proc"
| "table_of Nfs_bool = nfs_bool"
| "table_of Nlm4_stats = nlm4_stats"
| "table_of Fsh4_mode = fsh4_mode"
| "table_of Fsh4_access = fsh4_access"
| "table_of Nlm_proc4 = nlm_proc4"

text \<open>
  The module-level bindings \<^verbatim>\<open>NAME = n\<close> of a section, in source order: the
  identifier as a string, and the value it is bound to.
\<close>

fun enum_constants :: "protocol \<Rightarrow> (string \<times> int) list" where
  "enum_constants Rpc_rdma_errcode =
    [(''ERR_VERS'', ERR_VERS),
     (''ERR_CHUNK'', ERR_CHUNK)]"
| "enum_constants Rdma_proc =
    [(''RDMA_MSG'', RDMA_MSG),
     (''RDMA_NOMSG'', RDMA_NOMSG),
     (''RDMA_MSGP'', RDMA_MSGP),
     (''RDMA_DONE'', RDMA_DONE),
     (''RDMA_ERROR'', RDMA_ERROR)]"
| "enum_constants Nfs_bool =
    [(''FALSE'', FALSE),
     (''TRUE'', TRUE)]"
| "enum_constants Nlm4_stats =
    [(''NLM4_GRANTED'', NLM4_GRANTED),
     (''NLM4_DENIED'', NLM4_DENIED),
     (''NLM4_DENIED_NOLOCKS'', NLM4_DENIED_NOLOCKS),
     (''NLM4_BLOCKED'', NLM4_BLOCKED),
     (''NLM4_DENIED_GRACE_PERIOD'', NLM4_DENIED_GRACE_PERIOD),
     (''NLM4_DEADLCK'', NLM4_DEADLCK),
     (''NLM4_ROFS'', NLM4_ROFS),
     (''NLM4_STALE_FH'', NLM4_STALE_FH),
     (''NLM4_FBIG'', NLM4_FBIG),
     (''NLM4_FAILED'', NLM4_FAILED)]"
| "enum_constants Fsh4_mode =
    [(''fsm_DN'', fsm_DN),
     (''fsm_DR'', fsm_DR),
     (''fsm_DW'', fsm_DW),
     (''fsm_DRW'', fsm_DRW)]"
| "enum_constants Fsh4_access =
    [(''fsa_NONE'', fsa_NONE),
     (''fsa_R'', fsa_R),
     (''fsa_W'', fsa_W),
     (''fsa_RW'', fsa_RW)]"
| "enum_constants Nlm_proc4 =
    [(''NLMPROC4_NULL'', NLMPROC4_NULL),
     (''NLMPROC4_TEST'', NLMPROC4_TEST),
     (''NLMPROC4_LOCK'', NLMPROC4_LOCK),
     (''NLMPROC4_CANCEL'', NLMPROC4_CANCEL),
     (''NLMPROC4_UNLOCK'', NLMPROC4_UNLOCK),
     (''NLMPROC4_GRANTED'', NLMPROC4_GRANTED),
     (''NLMPROC4_TEST_MSG'', NLMPROC4_TEST_MSG),
     (''NLMPROC4_LOCK_MSG'', NLMPROC4_LOCK_MSG),
     (''NLMPROC4_CANCEL_MSG'', NLMPROC4_CANCEL_MSG),
     (''NLMPROC4_UNLOCK_MSG'', NLMPROC4_UNLOCK_MSG),
     (''NLMPROC4_GRANTED_MSG'', NLMPROC4_GRANTED_MSG),
     (''NLMPROC4_TEST_RES'', NLMPROC4_TEST_RES),
     (''NLMPROC4_LOCK_RES'', NLMPROC4_LOCK_RES),
     (''NLMPROC4_CANCEL_RES'', NLMPROC4_CANCEL_RES),
     (''NLMPROC4_UNLOCK_RES'', NLMPROC4_UNLOCK_RES),
     (''NLMPROC4_GRANTED_RES'', NLMPROC4_GRANTED_RES),
     (''NLMPROC4_SHARE'', NLMPROC4_SHARE),
     (''NLMPROC4_UNSHARE'', NLMPROC4_UNSHARE),
     (''NLMPROC4_NM_LOCK'', NLMPROC4_NM_LOCK),
     (''NLMPROC4_FREE_ALL'', NLMPROC4_FREE_ALL)]"

text \<open>
  The names whose binding carries the comment \<^verbatim>\<open># Value fixed for all versions\<close>,
  and those whose binding carries \<^verbatim>\<open># Not to be used\<close>.
\<close>

definition fixed_for_all_versions :: "(protocol \<times> string) list" where
  "fixed_for_all_versions =
    [(Rpc_rdma_errcode, ''ERR_VERS''),
     (Rdma_proc, ''RDMA_MSG''),
     (Rdma_proc, ''RDMA_NOMSG''),
     (Rdma_proc, ''RDMA_ERROR'')]"

definition not_to_be_used :: "(protocol \<times> string) list" where
  "not_to_be_used =
    [(Rdma_proc, ''RDMA_MSGP''),
     (Rdma_proc, ''RDMA_DONE'')]"

section \<open>The constant-table interface\<close>

text \<open>
  Modelled from the spec: the function \<^verbatim>\<open>lookup(protocol, code) -> symbolic_name | None\<close>
  of the constant-table interface is not in the two modules, which only define the
  dicts. It is the read of the protocol's dict that returns \<^verbatim>\<open>None\<close> for a missing
  key (\<^verbatim>\<open>table.get(code)\<close>).
\<close>

definition lookup :: "protocol \<Rightarrow> int \<Rightarrow> string option" where
  "lookup p code = (table_of p) code"

section \<open>Errors and bytes\<close>

text \<open>
  Modelled from the spec: the decoding engine that consumes the tables (the XDR codec, the
  protocol decoders' enum resolution and the RDMA chunk reassembler) is not in the two
  modules. The definitions from here to the end of the definitions follow sections 3, 4
  and 7 of the specification; where it leaves a wire detail to XDR (a boolean and an
  optional's presence flag are 4-byte integers 0 or 1, an array carries a 4-byte count,
  a union's discriminant is a signed 32-bit integer) the XDR rule is used.
\<close>

text \<open>Modelled from the spec: the error kinds of section 7.\<close>

datatype error =
  TruncatedData | MalformedEncoding | LengthExceeded | UnknownUnionArm | UnknownEnumValue
  | ProtocolViolation

type_synonym byte = "8 word"

text \<open>
  Modelled from the spec: \<^verbatim>\<open>decode(bytes, cursor, type_descriptor) -> (value, new_cursor)\<close>,
  or an error.
\<close>

type_synonym 'a decoder = "byte list \<Rightarrow> nat \<Rightarrow> error + ('a \<times> nat)"

section \<open>Type descriptors and decoded values\<close>

text \<open>
  Modelled from the spec: a type descriptor gives the primitive kind, fixed or variable
  length with the protocol-declared maximum, the element type of an array, the
  discriminant-to-arm mapping of a union with its optional default arm, and optional
  presence; a field typed as an enum names its constant table.
\<close>

datatype type_desc =
    TUint32 | TInt32 | TUint64 | TInt64 | TBool
  | TEnum protocol
  | TOpaqueFixed nat
  | TOpaqueVar nat
  | TString nat
  | TArrayFixed nat type_desc
  | TArrayVar nat type_desc
  | TRecord "(string \<times> type_desc) list"
  | TUnion "(int \<times> type_desc) list" "type_desc option"
  | TOptional type_desc
  | TVoid

text \<open>
  Modelled from the spec: a decoded record is a tree of named fields with semantic types;
  an enumerated field holds the raw numeric value and the resolved symbolic name.
\<close>

datatype xdr_value =
    VInt int
  | VBool bool
  | VEnum int string
  | VOpaque "byte list"
  | VString string
  | VArray "xdr_value list"
  | VRecord "(string \<times> xdr_value) list"
  | VUnion int xdr_value
  | VOptional "xdr_value option"
  | VVoid

section \<open>Enum resolution\<close>

text \<open>Modelled from the spec: the decimal rendering of the \<open>n\<close> of \<^verbatim>\<open>UNKNOWN(n)\<close>.\<close>

definition digit :: "nat \<Rightarrow> char" where
  "digit d = ''0123456789'' ! d"

fun show_nat :: "nat \<Rightarrow> string" where
  "show_nat n = (if n < 10 then [digit n] else show_nat (n div 10) @ [digit (n mod 10)])"

declare show_nat.simps [simp del]

definition show_int :: "int \<Rightarrow> string" where
  "show_int i = (if i < 0 then CHR ''-'' # show_nat (nat (- i)) else show_nat (nat i))"

text \<open>
  Modelled from the spec: an enum is fixed when the source marks one of its codes
  \<^verbatim>\<open>Value fixed for all versions\<close>.
\<close>

definition fixed_enum :: "protocol \<Rightarrow> bool" where
  "fixed_enum p \<longleftrightarrow> p \<in> set (map fst fixed_for_all_versions)"

text \<open>
  Modelled from the spec: the raw integer of an enum field is resolved against the
  protocol's constant table; an unknown value is kept with the synthesized label
  \<^verbatim>\<open>UNKNOWN(n)\<close>, except in a fixed-for-all-versions field, where it fails with
  \<open>ProtocolViolation\<close>.
\<close>

definition resolve_enum :: "protocol \<Rightarrow> int \<Rightarrow> error + string" where
  "resolve_enum p n =
    (case lookup p n of
       Some name \<Rightarrow> Inr name
     | None \<Rightarrow>
         if fixed_enum p then Inl ProtocolViolation
         else Inr (''UNKNOWN('' @ show_int n @ '')''))"

section \<open>The XDR codec\<close>

text \<open>Modelled from the spec: all integers are big-endian.\<close>

fun be_encode :: "nat \<Rightarrow> nat \<Rightarrow> byte list" where
  "be_encode 0 n = []"
| "be_encode (Suc k) n = be_encode k (n div 256) @ [of_nat (n mod 256)]"

definition be_decode :: "byte list \<Rightarrow> nat" where
  "be_decode bs = foldl (\<lambda>a b. a * 256 + unat b) 0 bs"

text \<open>
  Modelled from the spec: decoding past the end of the available bytes fails with
  \<open>TruncatedData\<close>.
\<close>

definition read :: "nat \<Rightarrow> byte list decoder" where
  "read k bs c =
    (if c + k \<le> length bs then Inr (take k (drop c bs), c + k) else Inl TruncatedData)"

text \<open>Modelled from the spec: unsigned and signed integers of \<open>k\<close> bytes (4 or 8).\<close>

definition dec_uint :: "nat \<Rightarrow> nat decoder" where
  "dec_uint k bs c =
    (case read k bs c of Inl e \<Rightarrow> Inl e | Inr (raw, c') \<Rightarrow> Inr (be_decode raw, c'))"

definition dec_sint :: "nat \<Rightarrow> int decoder" where
  "dec_sint k bs c =
    (case dec_uint k bs c of
       Inl e \<Rightarrow> Inl e
     | Inr (u, c') \<Rightarrow>
         Inr (if u < 2 ^ (8 * k - 1) then int u else int u - 2 ^ (8 * k), c'))"

definition enc_uint :: "nat \<Rightarrow> int \<Rightarrow> byte list option" where
  "enc_uint k i = (if 0 \<le> i \<and> i < 2 ^ (8 * k) then Some (be_encode k (nat i)) else None)"

definition enc_sint :: "nat \<Rightarrow> int \<Rightarrow> byte list option" where
  "enc_sint k i =
    (if - (2 ^ (8 * k - 1)) \<le> i \<and> i < 2 ^ (8 * k - 1)
     then Some (be_encode k (nat (i mod 2 ^ (8 * k)))) else None)"

text \<open>
  Modelled from the spec: variable-length data is padded to a 4-byte boundary with zero
  bytes, and the codec verifies that the padding bytes are zero, failing with
  \<open>MalformedEncoding\<close> otherwise.
\<close>

definition pad_len :: "nat \<Rightarrow> nat" where
  "pad_len n = (4 - n mod 4) mod 4"

definition dec_padded :: "nat \<Rightarrow> byte list decoder" where
  "dec_padded n bs c =
    (case read n bs c of
       Inl e \<Rightarrow> Inl e
     | Inr (raw, c1) \<Rightarrow>
        (case read (pad_len n) bs c1 of
           Inl e \<Rightarrow> Inl e
         | Inr (pad, c2) \<Rightarrow>
             if list_all (\<lambda>b. b = 0) pad then Inr (raw, c2) else Inl MalformedEncoding))"

definition enc_padded :: "byte list \<Rightarrow> byte list" where
  "enc_padded raw = raw @ replicate (pad_len (length raw)) 0"

text \<open>
  Modelled from the spec: opaque and string fields carry an explicit preceding 32-bit
  length; decoding fails with \<open>LengthExceeded\<close> if the length exceeds the
  protocol-declared maximum.
\<close>

definition dec_var :: "nat \<Rightarrow> byte list decoder" where
  "dec_var maxlen bs c =
    (case dec_uint 4 bs c of
       Inl e \<Rightarrow> Inl e
     | Inr (n, c1) \<Rightarrow> if maxlen < n then Inl LengthExceeded else dec_padded n bs c1)"

definition enc_var :: "nat \<Rightarrow> byte list \<Rightarrow> byte list option" where
  "enc_var maxlen raw =
    (if length raw \<le> maxlen
     then (case enc_uint 4 (int (length raw)) of
             None \<Rightarrow> None
           | Some len \<Rightarrow> Some (len @ enc_padded raw))
     else None)"

text \<open>Modelled from the spec: the characters of a string field are its bytes.\<close>

definition byte_of_char :: "char \<Rightarrow> byte" where
  "byte_of_char ch = of_nat (of_char ch)"

definition char_of_byte :: "byte \<Rightarrow> char" where
  "char_of_byte b = char_of (unat b)"

text \<open>Modelled from the spec: the elements of an array, one after the other.\<close>

fun dec_many :: "nat \<Rightarrow> 'a decoder \<Rightarrow> 'a list decoder" where
  "dec_many 0 dec bs c = Inr ([], c)"
| "dec_many (Suc n) dec bs c =
    (case dec bs c of
       Inl e \<Rightarrow> Inl e
     | Inr (v, c1) \<Rightarrow>
        (case dec_many n dec bs c1 of
           Inl e \<Rightarrow> Inl e
         | Inr (vs, c2) \<Rightarrow> Inr (v # vs, c2)))"

fun enc_many :: "('a \<Rightarrow> byte list option) \<Rightarrow> 'a list \<Rightarrow> byte list option" where
  "enc_many enc [] = Some []"
| "enc_many enc (v # vs) =
    (case enc v of
       None \<Rightarrow> None
     | Some b \<Rightarrow> (case enc_many enc vs of None \<Rightarrow> None | Some bs \<Rightarrow> Some (b @ bs)))"

text \<open>Modelled from the spec: the fields of a record are decoded in declared order.\<close>

fun dec_fields :: "(string \<times> 'a decoder) list \<Rightarrow> (string \<times> 'a) list decoder" where
  "dec_fields [] bs c = Inr ([], c)"
| "dec_fields ((name, dec) # fs) bs c =
    (case dec bs c of
       Inl e \<Rightarrow> Inl e
     | Inr (v, c1) \<Rightarrow>
        (case dec_fields fs bs c1 of
           Inl e \<Rightarrow> Inl e
         | Inr (nvs, c2) \<Rightarrow> Inr ((name, v) # nvs, c2)))"

fun enc_fields ::
  "(string \<times> ('a \<Rightarrow> byte list option)) list \<Rightarrow> (string \<times> 'a) list \<Rightarrow> byte list option" where
  "enc_fields [] [] = Some []"
| "enc_fields ((name, enc) # fs) ((name', v) # nvs) =
    (if name = name'
     then (case enc v of
             None \<Rightarrow> None
           | Some b \<Rightarrow> (case enc_fields fs nvs of None \<Rightarrow> None | Some bs \<Rightarrow> Some (b @ bs)))
     else None)"
| "enc_fields _ _ = None"

text \<open>
  Modelled from the spec: a union decodes the discriminant first, then dispatches to the
  arm registered for that value; an unregistered discriminant fails with
  \<open>UnknownUnionArm\<close> unless the descriptor declares a default arm.
\<close>

definition select_arm :: "(int \<times> 'a) list \<Rightarrow> 'a option \<Rightarrow> int \<Rightarrow> 'a option" where
  "select_arm arms dflt d = (case map_of arms d of Some a \<Rightarrow> Some a | None \<Rightarrow> dflt)"

definition dec_union ::
  "(int \<times> xdr_value decoder) list \<Rightarrow> xdr_value decoder option \<Rightarrow> xdr_value decoder" where
  "dec_union arms dflt bs c =
    (case dec_sint 4 bs c of
       Inl e \<Rightarrow> Inl e
     | Inr (d, c1) \<Rightarrow>
        (case select_arm arms dflt d of
           None \<Rightarrow> Inl UnknownUnionArm
         | Some dec \<Rightarrow>
            (case dec bs c1 of Inl e \<Rightarrow> Inl e | Inr (v, c2) \<Rightarrow> Inr (VUnion d v, c2))))"

definition enc_union ::
  "(int \<times> (xdr_value \<Rightarrow> byte list option)) list \<Rightarrow> (xdr_value \<Rightarrow> byte list option) option
    \<Rightarrow> int \<Rightarrow> xdr_value \<Rightarrow> byte list option" where
  "enc_union arms dflt d v =
    (case enc_sint 4 d of
       None \<Rightarrow> None
     | Some tag \<Rightarrow>
        (case select_arm arms dflt d of
           None \<Rightarrow> None
         | Some enc \<Rightarrow> (case enc v of None \<Rightarrow> None | Some b \<Rightarrow> Some (tag @ b))))"

text \<open>Modelled from the spec: booleans and optional values.\<close>

definition dec_bool :: "bool decoder" where
  "dec_bool bs c =
    (case dec_uint 4 bs c of
       Inl e \<Rightarrow> Inl e
     | Inr (u, c1) \<Rightarrow>
         if u = 0 then Inr (False, c1) else if u = 1 then Inr (True, c1)
         else Inl MalformedEncoding)"

definition enc_bool :: "bool \<Rightarrow> byte list" where
  "enc_bool b = be_encode 4 (if b then 1 else 0)"

definition dec_optional :: "xdr_value decoder \<Rightarrow> xdr_value decoder" where
  "dec_optional dec bs c =
    (case dec_bool bs c of
       Inl e \<Rightarrow> Inl e
     | Inr (present, c1) \<Rightarrow>
         if present
         then (case dec bs c1 of Inl e \<Rightarrow> Inl e | Inr (v, c2) \<Rightarrow> Inr (VOptional (Some v), c2))
         else Inr (VOptional None, c1))"

definition enc_optional ::
  "(xdr_value \<Rightarrow> byte list option) \<Rightarrow> xdr_value option \<Rightarrow> byte list option" where
  "enc_optional enc ov =
    (case ov of
       None \<Rightarrow> Some (enc_bool False)
     | Some x \<Rightarrow> (case enc x of None \<Rightarrow> None | Some b \<Rightarrow> Some (enc_bool True @ b)))"

text \<open>Modelled from the spec: an enum field is a signed 32-bit integer, then resolved.\<close>

definition dec_enum :: "protocol \<Rightarrow> xdr_value decoder" where
  "dec_enum p bs c =
    (case dec_sint 4 bs c of
       Inl e \<Rightarrow> Inl e
     | Inr (n, c1) \<Rightarrow>
        (case resolve_enum p n of Inl e \<Rightarrow> Inl e | Inr label \<Rightarrow> Inr (VEnum n label, c1)))"

definition enc_enum :: "protocol \<Rightarrow> int \<Rightarrow> string \<Rightarrow> byte list option" where
  "enc_enum p n label = (if resolve_enum p n = Inr label then enc_sint 4 n else None)"

definition with_value :: "('a \<Rightarrow> xdr_value) \<Rightarrow> 'a decoder \<Rightarrow> xdr_value decoder" where
  "with_value f dec bs c = (case dec bs c of Inl e \<Rightarrow> Inl e | Inr (x, c') \<Rightarrow> Inr (f x, c'))"

definition dec_array_var :: "nat \<Rightarrow> xdr_value decoder \<Rightarrow> xdr_value decoder" where
  "dec_array_var maxlen dec bs c =
    (case dec_uint 4 bs c of
       Inl e \<Rightarrow> Inl e
     | Inr (n, c1) \<Rightarrow>
         if maxlen < n then Inl LengthExceeded else with_value VArray (dec_many n dec) bs c1)"

definition enc_array_var ::
  "nat \<Rightarrow> (xdr_value \<Rightarrow> byte list option) \<Rightarrow> xdr_value list \<Rightarrow> byte list option" where
  "enc_array_var maxlen enc vs =
    (if length vs \<le> maxlen
     then (case enc_uint 4 (int (length vs)) of
             None \<Rightarrow> None
           | Some len \<Rightarrow> (case enc_many enc vs of None \<Rightarrow> None | Some b \<Rightarrow> Some (len @ b)))
     else None)"

text \<open>
  Modelled from the spec: \<^verbatim>\<open>decode(bytes, cursor, type_descriptor)\<close>, by the shape the
  descriptor declares.
\<close>

primrec decode :: "type_desc \<Rightarrow> xdr_value decoder" where
  "decode TUint32 = with_value (\<lambda>u. VInt (int u)) (dec_uint 4)"
| "decode TInt32 = with_value VInt (dec_sint 4)"
| "decode TUint64 = with_value (\<lambda>u. VInt (int u)) (dec_uint 8)"
| "decode TInt64 = with_value VInt (dec_sint 8)"
| "decode TBool = with_value VBool dec_bool"
| "decode (TEnum p) = dec_enum p"
| "decode (TOpaqueFixed n) = with_value VOpaque (dec_padded n)"
| "decode (TOpaqueVar maxlen) = with_value VOpaque (dec_var maxlen)"
| "decode (TString maxlen) = with_value (\<lambda>raw. VString (map char_of_byte raw)) (dec_var maxlen)"
| "decode (TArrayFixed n td) = with_value VArray (dec_many n (decode td))"
| "decode (TArrayVar maxlen td) = dec_array_var maxlen (decode td)"
| "decode (TRecord fs) = with_value VRecord (dec_fields (map (map_prod id decode) fs))"
| "decode (TUnion arms dflt) = dec_union (map (map_prod id decode) arms) (map_option decode dflt)"
| "decode (TOptional td) = dec_optional (decode td)"
| "decode TVoid = (\<lambda>bs c. Inr (VVoid, c))"

text \<open>
  Modelled from the spec: \<^verbatim>\<open>encode(value, type_descriptor) -> bytes\<close>; \<open>None\<close> for a value
  that is not of the descriptor's type.
\<close>

primrec encode :: "type_desc \<Rightarrow> xdr_value \<Rightarrow> byte list option" where
  "encode TUint32 = (\<lambda>v. case v of VInt i \<Rightarrow> enc_uint 4 i | _ \<Rightarrow> None)"
| "encode TInt32 = (\<lambda>v. case v of VInt i \<Rightarrow> enc_sint 4 i | _ \<Rightarrow> None)"
| "encode TUint64 = (\<lambda>v. case v of VInt i \<Rightarrow> enc_uint 8 i | _ \<Rightarrow> None)"
| "encode TInt64 = (\<lambda>v. case v of VInt i \<Rightarrow> enc_sint 8 i | _ \<Rightarrow> None)"
| "encode TBool = (\<lambda>v. case v of VBool b \<Rightarrow> Some (enc_bool b) | _ \<Rightarrow> None)"
| "encode (TEnum p) = (\<lambda>v. case v of VEnum n label \<Rightarrow> enc_enum p n label | _ \<Rightarrow> None)"
| "encode (TOpaqueFixed n) =
    (\<lambda>v. case v of
       VOpaque raw \<Rightarrow> if length raw = n then Some (enc_padded raw) else None
     | _ \<Rightarrow> None)"
| "encode (TOpaqueVar maxlen) = (\<lambda>v. case v of VOpaque raw \<Rightarrow> enc_var maxlen raw | _ \<Rightarrow> None)"
| "encode (TString maxlen) =
    (\<lambda>v. case v of VString s \<Rightarrow> enc_var maxlen (map byte_of_char s) | _ \<Rightarrow> None)"
| "encode (TArrayFixed n td) =
    (\<lambda>v. case v of
       VArray vs \<Rightarrow> if length vs = n then enc_many (encode td) vs else None
     | _ \<Rightarrow> None)"
| "encode (TArrayVar maxlen td) =
    (\<lambda>v. case v of VArray vs \<Rightarrow> enc_array_var maxlen (encode td) vs | _ \<Rightarrow> None)"
| "encode (TRecord fs) =
    (\<lambda>v. case v of VRecord nvs \<Rightarrow> enc_fields (map (map_prod id encode) fs) nvs | _ \<Rightarrow> None)"
| "encode (TUnion arms dflt) =
    (\<lambda>v. case v of
       VUnion d x \<Rightarrow> enc_union (map (map_prod id encode) arms) (map_option encode dflt) d x
     | _ \<Rightarrow> None)"
| "encode (TOptional td) =
    (\<lambda>v. case v of VOptional ov \<Rightarrow> enc_optional (encode td) ov | _ \<Rightarrow> None)"
| "encode TVoid = (\<lambda>v. case v of VVoid \<Rightarrow> Some [] | _ \<Rightarrow> None)"

text \<open>
  Modelled from the spec: the valid values of a descriptor: integers in the range of
  their width, lengths within the declared maximum and the 32-bit length prefix, fields
  as declared, a union value of the arm its discriminant selects, an enum value with the
  label its table resolves.
\<close>

fun valid_fields :: "(string \<times> ('a \<Rightarrow> bool)) list \<Rightarrow> (string \<times> 'a) list \<Rightarrow> bool" where
  "valid_fields [] [] = True"
| "valid_fields ((name, ok) # fs) ((name', v) # nvs) =
    (name = name' \<and> ok v \<and> valid_fields fs nvs)"
| "valid_fields _ _ = False"

definition valid_uint :: "nat \<Rightarrow> int \<Rightarrow> bool" where
  "valid_uint k i \<longleftrightarrow> 0 \<le> i \<and> i < 2 ^ (8 * k)"

definition valid_sint :: "nat \<Rightarrow> int \<Rightarrow> bool" where
  "valid_sint k i \<longleftrightarrow> - (2 ^ (8 * k - 1)) \<le> i \<and> i < 2 ^ (8 * k - 1)"

definition valid_len :: "nat \<Rightarrow> nat \<Rightarrow> bool" where
  "valid_len maxlen n \<longleftrightarrow> n \<le> maxlen \<and> n < 2 ^ 32"

primrec valid :: "type_desc \<Rightarrow> xdr_value \<Rightarrow> bool" where
  "valid TUint32 = (\<lambda>v. case v of VInt i \<Rightarrow> valid_uint 4 i | _ \<Rightarrow> False)"
| "valid TInt32 = (\<lambda>v. case v of VInt i \<Rightarrow> valid_sint 4 i | _ \<Rightarrow> False)"
| "valid TUint64 = (\<lambda>v. case v of VInt i \<Rightarrow> valid_uint 8 i | _ \<Rightarrow> False)"
| "valid TInt64 = (\<lambda>v. case v of VInt i \<Rightarrow> valid_sint 8 i | _ \<Rightarrow> False)"
| "valid TBool = (\<lambda>v. case v of VBool b \<Rightarrow> True | _ \<Rightarrow> False)"
| "valid (TEnum p) =
    (\<lambda>v. case v of
       VEnum n label \<Rightarrow> valid_sint 4 n \<and> resolve_enum p n = Inr label
     | _ \<Rightarrow> False)"
| "valid (TOpaqueFixed n) = (\<lambda>v. case v of VOpaque raw \<Rightarrow> length raw = n | _ \<Rightarrow> False)"
| "valid (TOpaqueVar maxlen) =
    (\<lambda>v. case v of VOpaque raw \<Rightarrow> valid_len maxlen (length raw) | _ \<Rightarrow> False)"
| "valid (TString maxlen) =
    (\<lambda>v. case v of VString s \<Rightarrow> valid_len maxlen (length s) | _ \<Rightarrow> False)"
| "valid (TArrayFixed n td) =
    (\<lambda>v. case v of VArray vs \<Rightarrow> length vs = n \<and> list_all (valid td) vs | _ \<Rightarrow> False)"
| "valid (TArrayVar maxlen td) =
    (\<lambda>v. case v of
       VArray vs \<Rightarrow> valid_len maxlen (length vs) \<and> list_all (valid td) vs
     | _ \<Rightarrow> False)"
| "valid (TRecord fs) =
    (\<lambda>v. case v of VRecord nvs \<Rightarrow> valid_fields (map (map_prod id valid) fs) nvs | _ \<Rightarrow> False)"
| "valid (TUnion arms dflt) =
    (\<lambda>v. case v of
       VUnion d x \<Rightarrow>
         valid_sint 4 d
         \<and> (case select_arm (map (map_prod id valid) arms) (map_option valid dflt) d of
              None \<Rightarrow> False
            | Some ok \<Rightarrow> ok x)
     | _ \<Rightarrow> False)"
| "valid (TOptional td) =
    (\<lambda>v. case v of
       VOptional None \<Rightarrow> True
     | VOptional (Some x) \<Rightarrow> valid td x
     | _ \<Rightarrow> False)"
| "valid TVoid = (\<lambda>v. case v of VVoid \<Rightarrow> True | _ \<Rightarrow> False)"

section \<open>NLM opaque fields\<close>

text \<open>
  Modelled from the spec: an NLM opaque field is variable-length opaque data whose
  declared maximum is \<open>MAXNETOBJ_SZ\<close>.
\<close>

definition nlm_netobj :: type_desc where
  "nlm_netobj = TOpaqueVar (nat MAXNETOBJ_SZ)"

section \<open>The RDMA chunk reassembler\<close>

text \<open>
  Modelled from the spec: a chunk descriptor is a position, a length and a remote-access
  handle; the decoded framing header carries the proc value, the ordered read and write
  chunk lists and at most one reply chunk.
\<close>

record chunk =
  chunk_position :: nat
  chunk_length :: nat
  chunk_handle :: nat





section \<open>Relations used in the proofs\<close>

text \<open>
  An encoder and a decoder of one field agree: what the encoder writes, the decoder reads
  back at any cursor; and an encoder accepts what a validity check accepts.
\<close>

definition field_rt ::
  "(string \<times> ('a \<Rightarrow> byte list option)) \<Rightarrow> (string \<times> 'a decoder) \<Rightarrow> bool" where
  "field_rt e d \<longleftrightarrow>
    fst e = fst d
    \<and> (\<forall>v b pre post. snd e v = Some b
          \<longrightarrow> snd d (pre @ b @ post) (length pre) = Inr (v, length pre + length b))"

definition field_ok ::
  "(string \<times> ('a \<Rightarrow> bool)) \<Rightarrow> (string \<times> ('a \<Rightarrow> byte list option)) \<Rightarrow> bool" where
  "field_ok p e \<longleftrightarrow> fst p = fst e \<and> (\<forall>v. snd p v \<longrightarrow> (\<exists>b. snd e v = Some b))"

section \<open>Facts about dict displays\<close>

lemma foldl_upd_eq:
  "foldl (\<lambda>m (k, v). m(k \<mapsto> v)) m0 kvs = m0 ++ map_of (rev kvs)"
proof (induction kvs arbitrary: m0)
  case Nil
  show ?case by simp
next
  case (Cons kv kvs)
  obtain k v where kv: "kv = (k, v)" by (cases kv)
  have "foldl (\<lambda>m (k, v). m(k \<mapsto> v)) m0 (kv # kvs)
        = foldl (\<lambda>m (k, v). m(k \<mapsto> v)) (m0(k \<mapsto> v)) kvs"
    by (simp add: kv)
  also have "\<dots> = (m0(k \<mapsto> v)) ++ map_of (rev kvs)"
    by (rule Cons.IH)
  also have "\<dots> = m0 ++ map_of (rev (kv # kvs))"
    by (rule ext) (simp add: kv map_add_def split: option.splits)
  finally show ?case .
qed

lemma dict_literal_rev: "dict_literal kvs = map_of (rev kvs)"
  by (simp add: dict_literal_def foldl_upd_eq)

lemma dict_literal_distinct:
  assumes "distinct (map fst kvs)"
  shows "dict_literal kvs = map_of kvs"
proof (rule ext)
  fix k
  from assms have d: "distinct (map fst (rev kvs))"
    by (simp add: rev_map [symmetric])
  show "dict_literal kvs k = map_of kvs k"
  proof (cases "map_of kvs k")
    case None
    then have "k \<notin> fst ` set kvs"
      by (rule map_of_eq_None_iff [THEN iffD1])
    then have "k \<notin> fst ` set (rev kvs)"
      by simp
    then have "map_of (rev kvs) k = None"
      by (rule map_of_eq_None_iff [THEN iffD2])
    then show ?thesis
      using None by (simp add: dict_literal_rev)
  next
    case (Some v)
    then have "(k, v) \<in> set (rev kvs)"
      by (auto dest: map_of_SomeD)
    with d have "map_of (rev kvs) k = Some v"
      by (rule map_of_is_SomeI)
    then show ?thesis
      using Some by (simp add: dict_literal_rev)
  qed
qed

lemma map_of_Some_iff_mem:
  "distinct (map fst kvs) \<Longrightarrow> map_of kvs k = Some v \<longleftrightarrow> (k, v) \<in> set kvs"
  by (auto dest: map_of_SomeD intro: map_of_is_SomeI)

lemma map_of_inj_values:
  assumes "distinct (map snd kvs)"
    and "map_of kvs a = Some v" and "map_of kvs b = Some v"
  shows "a = b"
proof -
  from assms(2,3) have mem: "(a, v) \<in> set kvs" "(b, v) \<in> set kvs"
    by (auto dest: map_of_SomeD)
  from assms(1) have "inj_on snd (set kvs)"
    by (simp add: distinct_map)
  with mem have "(a, v) = (b, v)"
    by (rule_tac inj_onD [of snd "set kvs"]) simp_all
  then show ?thesis by simp
qed

section \<open>The tables have no repeated key and no repeated name\<close>

lemma distinct_keys: "distinct (map fst (table_items p))"
  by (cases p)
    (simp_all add: rpc_rdma_errcode_items_def rdma_proc_items_def nfs_bool_items_def
      nlm4_stats_items_def fsh4_mode_items_def fsh4_access_items_def nlm_proc4_items_def)

lemma distinct_names: "distinct (map snd (table_items p))"
  by (cases p)
    (simp_all add: rpc_rdma_errcode_items_def rdma_proc_items_def nfs_bool_items_def
      nlm4_stats_items_def fsh4_mode_items_def fsh4_access_items_def nlm_proc4_items_def)

lemma table_of_items: "table_of p = dict_literal (table_items p)"
  by (cases p)
    (simp_all add: rpc_rdma_errcode_def rdma_proc_def nfs_bool_def
      nlm4_stats_def fsh4_mode_def fsh4_access_def nlm_proc4_def)

lemma table_of_map_of: "table_of p = map_of (table_items p)"
  by (simp add: table_of_items dict_literal_distinct distinct_keys)

lemma table_of_Some_iff: "table_of p k = Some v \<longleftrightarrow> (k, v) \<in> set (table_items p)"
  by (simp add: table_of_map_of map_of_Some_iff_mem distinct_keys)

lemma table_of_None_iff: "table_of p k = None \<longleftrightarrow> k \<notin> fst ` set (table_items p)"
  by (simp add: table_of_map_of map_of_eq_None_iff)

lemma constants_swap_items: "map prod.swap (enum_constants p) = table_items p"
  by (cases p)
    (simp_all add: rpc_rdma_errcode_items_def rdma_proc_items_def nfs_bool_items_def
      nlm4_stats_items_def fsh4_mode_items_def fsh4_access_items_def nlm_proc4_items_def
      ERR_VERS_def ERR_CHUNK_def
      RDMA_MSG_def RDMA_NOMSG_def RDMA_MSGP_def RDMA_DONE_def RDMA_ERROR_def
      FALSE_def TRUE_def
      NLM4_GRANTED_def NLM4_DENIED_def NLM4_DENIED_NOLOCKS_def NLM4_BLOCKED_def
      NLM4_DENIED_GRACE_PERIOD_def NLM4_DEADLCK_def NLM4_ROFS_def NLM4_STALE_FH_def
      NLM4_FBIG_def NLM4_FAILED_def
      fsm_DN_def fsm_DR_def fsm_DW_def fsm_DRW_def
      fsa_NONE_def fsa_R_def fsa_W_def fsa_RW_def
      NLMPROC4_NULL_def NLMPROC4_TEST_def NLMPROC4_LOCK_def NLMPROC4_CANCEL_def
      NLMPROC4_UNLOCK_def NLMPROC4_GRANTED_def NLMPROC4_TEST_MSG_def NLMPROC4_LOCK_MSG_def
      NLMPROC4_CANCEL_MSG_def NLMPROC4_UNLOCK_MSG_def NLMPROC4_GRANTED_MSG_def
      NLMPROC4_TEST_RES_def NLMPROC4_LOCK_RES_def NLMPROC4_CANCEL_RES_def
      NLMPROC4_UNLOCK_RES_def NLMPROC4_GRANTED_RES_def NLMPROC4_SHARE_def
      NLMPROC4_UNSHARE_def NLMPROC4_NM_LOCK_def NLMPROC4_FREE_ALL_def)

lemma items_mem_iff_constants:
  "(k, v) \<in> set (table_items p) \<longleftrightarrow> (v, k) \<in> set (enum_constants p)"
proof -
  have "set (table_items p) = prod.swap ` set (enum_constants p)"
    by (simp add: constants_swap_items [symmetric])
  then show ?thesis by auto
qed

lemma nlm_proc4_keys:
  "fst ` set nlm_proc4_items = {0..15} \<union> {20..23}"
proof -
  have "fst ` set nlm_proc4_items
        = {0, 1, 2, 3, 4, 5, 6, 7, 8, 9, 10, 11, 12, 13, 14, 15, 20, 21, 22, 23}"
    by (simp add: nlm_proc4_items_def)
  also have "\<dots> = {0..15} \<union> {20..23}"
  proof (rule set_eqI)
    fix x :: int
    show "x \<in> {0, 1, 2, 3, 4, 5, 6, 7, 8, 9, 10, 11, 12, 13, 14, 15, 20, 21, 22, 23}
          \<longleftrightarrow> x \<in> {0..15} \<union> {20..23}"
      by (simp only: insert_iff empty_iff Un_iff atLeastAtMost_iff) presburger
  qed
  finally show ?thesis .
qed

section \<open>The codec reads back what it writes\<close>

lemma length_be_encode: "length (be_encode k n) = k"
  by (induction k arbitrary: n) simp_all

lemma be_decode_snoc: "be_decode (bs @ [b]) = be_decode bs * 256 + unat b"
  by (simp add: be_decode_def)

lemma be_decode_encode: "n < 256 ^ k \<Longrightarrow> be_decode (be_encode k n) = n"
proof (induction k arbitrary: n)
  case 0
  then show ?case by (simp add: be_decode_def)
next
  case (Suc k)
  from Suc.prems have "n div 256 < 256 ^ k"
    by (simp add: less_mult_imp_div_less mult.commute)
  then have "be_decode (be_encode k (n div 256)) = n div 256"
    by (rule Suc.IH)
  then show ?case
    by (simp add: be_decode_snoc unat_of_nat)
qed

lemma read_at:
  "length b = k \<Longrightarrow> read k (pre @ b @ post) (length pre) = Inr (b, length pre + k)"
  by (simp add: read_def)

lemma dec_uint_at:
  assumes "n < 256 ^ k"
  shows "dec_uint k (pre @ be_encode k n @ post) (length pre) = Inr (n, length pre + k)"
  using assms by (simp add: dec_uint_def read_at length_be_encode be_decode_encode)

lemma pow_bytes: "(2::nat) ^ (8 * k) = 256 ^ k"
  by (simp add: power_mult)

lemma enc_uint_roundtrip:
  assumes "enc_uint k i = Some b"
  shows "dec_uint k (pre @ b @ post) (length pre) = Inr (nat i, length pre + length b)
         \<and> int (nat i) = i"
proof -
  from assms have r: "0 \<le> i" "i < 2 ^ (8 * k)" and b: "b = be_encode k (nat i)"
    by (auto simp: enc_uint_def split: if_splits)
  from r have "nat i < 2 ^ (8 * k)"
    by (simp add: nat_less_iff)
  then have "nat i < 256 ^ k"
    by (simp only: pow_bytes)
  then show ?thesis
    using r by (simp add: b dec_uint_at length_be_encode)
qed

lemma wrap_int:
  fixes i h :: int
  assumes "- h \<le> i" and "i < h"
  shows "i mod (2 * h) = (if 0 \<le> i then i else i + 2 * h)"
proof (cases "0 \<le> i")
  case True
  with assms have "i mod (2 * h) = i"
    by (intro mod_pos_pos_trivial) auto
  with True show ?thesis by simp
next
  case False
  have "i mod (2 * h) = (i + 2 * h) mod (2 * h)"
    by simp
  also from False assms have "\<dots> = i + 2 * h"
    by (intro mod_pos_pos_trivial) auto
  finally show ?thesis
    using False by simp
qed

lemma enc_sint_roundtrip:
  assumes "enc_sint k i = Some b" and "0 < k"
  shows "dec_sint k (pre @ b @ post) (length pre) = Inr (i, length pre + length b)"
proof -
  define h :: int where "h = 2 ^ (8 * k - 1)"
  define u where "u = nat (i mod (2 * h))"
  from \<open>0 < k\<close> have "8 * k = Suc (8 * k - 1)" by simp
  then have "(2::int) ^ (8 * k) = 2 * 2 ^ (8 * k - 1)"
    by (metis power_Suc)
  then have m: "(2::int) ^ (8 * k) = 2 * h"
    by (simp add: h_def)
  from assms(1) have r: "- h \<le> i" "i < h" and b: "b = be_encode k u"
    by (auto simp: enc_sint_def h_def u_def m [unfolded h_def] split: if_splits)
  have hpos: "0 < h" by (simp add: h_def)
  have iu: "int u = i mod (2 * h)"
    using hpos by (simp add: u_def)
  then have "int u < 2 ^ (8 * k)"
    using hpos by (simp add: m)
  then have "u < 2 ^ (8 * k)"
    by (metis of_nat_less_iff of_nat_numeral of_nat_power)
  then have bound: "u < 256 ^ k"
    by (simp only: pow_bytes)
  have du: "dec_uint k (pre @ b @ post) (length pre) = Inr (u, length pre + length b)"
    using bound by (simp add: b dec_uint_at length_be_encode)
  have lt: "u < 2 ^ (8 * k - 1) \<longleftrightarrow> int u < h"
    unfolding h_def by (metis of_nat_less_iff of_nat_numeral of_nat_power)
  have val: "(if u < 2 ^ (8 * k - 1) then int u else int u - 2 ^ (8 * k)) = i"
    unfolding lt m iu wrap_int [OF r] using r by auto
  show ?thesis
    unfolding dec_sint_def du using val by simp
qed


lemma length_enc_uint: "enc_uint k i = Some b \<Longrightarrow> length b = k"
  by (auto simp: enc_uint_def length_be_encode split: if_splits)

lemma length_enc_sint: "enc_sint k i = Some b \<Longrightarrow> length b = k"
  by (auto simp: enc_sint_def length_be_encode split: if_splits)

lemma read_at':
  "length b = k \<Longrightarrow> c = length pre \<Longrightarrow> read k (pre @ b @ post) c = Inr (b, c + k)"
  by (simp add: read_def)

lemma dec_padded_at:
  "dec_padded (length raw) (pre @ enc_padded raw @ post) (length pre)
   = Inr (raw, length pre + length (enc_padded raw))"
proof -
  let ?pad = "replicate (pad_len (length raw)) (0::byte)"
  have r1: "read (length raw) (pre @ raw @ ?pad @ post) (length pre)
            = Inr (raw, length pre + length raw)"
    by (rule read_at') simp_all
  have "read (pad_len (length raw)) ((pre @ raw) @ ?pad @ post) (length pre + length raw)
            = Inr (?pad, length pre + length raw + pad_len (length raw))"
    by (rule read_at') simp_all
  then have r2: "read (pad_len (length raw)) (pre @ raw @ ?pad @ post) (length pre + length raw)
            = Inr (?pad, length pre + length raw + pad_len (length raw))"
    by simp
  have z: "list_all (\<lambda>b. b = 0) ?pad"
    by (simp add: list_all_iff)
  show ?thesis
    using z by (simp add: dec_padded_def enc_padded_def r1 r2)
qed

lemma enc_var_roundtrip:
  assumes "enc_var maxlen raw = Some b"
  shows "dec_var maxlen (pre @ b @ post) (length pre) = Inr (raw, length pre + length b)"
proof -
  from assms obtain len where le: "length raw \<le> maxlen"
    and len: "enc_uint 4 (int (length raw)) = Some len"
    and b: "b = len @ enc_padded raw"
    by (auto simp: enc_var_def split: if_splits option.splits)
  have l4: "length len = 4"
    using len by (rule length_enc_uint)
  have d1: "dec_uint 4 (pre @ len @ enc_padded raw @ post) (length pre)
            = Inr (length raw, length pre + 4)"
    using enc_uint_roundtrip [OF len, of pre "enc_padded raw @ post"] by (simp add: l4)
  have "dec_padded (length raw) ((pre @ len) @ enc_padded raw @ post) (length (pre @ len))
        = Inr (raw, length (pre @ len) + length (enc_padded raw))"
    by (rule dec_padded_at)
  then have d2: "dec_padded (length raw) (pre @ len @ enc_padded raw @ post) (length pre + 4)
        = Inr (raw, length pre + 4 + length (enc_padded raw))"
    by (simp add: l4)
  show ?thesis
    using le by (simp add: dec_var_def b d1 d2 l4)
qed

lemma char_of_byte_of_char: "char_of_byte (byte_of_char ch) = ch"
  by (simp add: char_of_byte_def byte_of_char_def unat_of_nat)

lemma dec_bool_at:
  "dec_bool (pre @ enc_bool x @ post) (length pre) = Inr (x, length pre + 4)"
proof -
  have "dec_uint 4 (pre @ be_encode 4 (if x then 1 else 0) @ post) (length pre)
        = Inr (if x then 1 else 0, length pre + 4)"
    by (rule dec_uint_at) simp
  then show ?thesis
    by (simp add: dec_bool_def enc_bool_def)
qed

lemma length_enc_bool: "length (enc_bool x) = 4"
  by (simp add: enc_bool_def length_be_encode)

lemma map_of_map_prod:
  "map_of (map (map_prod id f) xs) k = map_option f (map_of xs k)"
  by (induction xs) auto

lemma select_arm_map:
  "select_arm (map (map_prod id f) arms) (map_option f dflt) d
   = map_option f (select_arm arms dflt d)"
  by (simp add: select_arm_def map_of_map_prod split: option.splits)

lemma select_arm_cases:
  assumes "select_arm arms dflt d = Some a"
  obtains "(d, a) \<in> set arms" | "dflt = Some a"
  using assms by (auto simp: select_arm_def split: option.splits dest: map_of_SomeD)

lemma enc_many_roundtrip:
  assumes "\<And>v b pre post. v \<in> set vs \<Longrightarrow> enc v = Some b
             \<Longrightarrow> dec (pre @ b @ post) (length pre) = Inr (v, length pre + length b)"
    and "enc_many enc vs = Some b"
  shows "dec_many (length vs) dec (pre @ b @ post) (length pre)
         = Inr (vs, length pre + length b)"
  using assms
proof (induction vs arbitrary: b pre)
  case Nil
  then show ?case by simp
next
  case (Cons v vs)
  from Cons.prems(2) obtain b1 b2 where b1: "enc v = Some b1"
    and b2: "enc_many enc vs = Some b2" and b: "b = b1 @ b2"
    by (auto split: option.splits)
  have h: "dec (pre @ b1 @ b2 @ post) (length pre) = Inr (v, length pre + length b1)"
    using Cons.prems(1) [of v b1 pre "b2 @ post"] b1 by simp
  have "dec_many (length vs) dec ((pre @ b1) @ b2 @ post) (length (pre @ b1))
        = Inr (vs, length (pre @ b1) + length b2)"
    using Cons.prems(1) b2 by (intro Cons.IH) auto
  then have t: "dec_many (length vs) dec (pre @ b1 @ b2 @ post) (length pre + length b1)
        = Inr (vs, length pre + length b1 + length b2)"
    by simp
  show ?case
    by (simp add: b h t add.assoc)
qed

lemma enc_fields_roundtrip:
  assumes "list_all2 field_rt es ds"
    and "enc_fields es nvs = Some b"
  shows "dec_fields ds (pre @ b @ post) (length pre) = Inr (nvs, length pre + length b)"
  using assms
proof (induction es ds arbitrary: nvs b pre rule: list_all2_induct)
  case Nil
  then show ?case by (cases nvs) simp_all
next
  case (Cons e es d ds)
  obtain name enc where e: "e = (name, enc)" by (cases e)
  obtain name' dec where d: "d = (name', dec)" by (cases d)
  from Cons.hyps(1) have same: "name' = name"
    and rt: "\<And>v b pre post. enc v = Some b
               \<Longrightarrow> dec (pre @ b @ post) (length pre) = Inr (v, length pre + length b)"
    by (simp_all add: field_rt_def e d)
  from Cons.prems obtain v nvs' where nvs: "nvs = (name, v) # nvs'"
    by (cases nvs) (auto simp: e split: if_splits)
  from Cons.prems obtain b1 b2 where b1: "enc v = Some b1"
    and b2: "enc_fields es nvs' = Some b2" and b: "b = b1 @ b2"
    by (auto simp: e nvs split: option.splits)
  have h: "dec (pre @ b1 @ b2 @ post) (length pre) = Inr (v, length pre + length b1)"
    using rt [of v b1 pre "b2 @ post"] b1 by simp
  have "dec_fields ds ((pre @ b1) @ b2 @ post) (length (pre @ b1))
        = Inr (nvs', length (pre @ b1) + length b2)"
    using b2 by (rule Cons.IH)
  then have t: "dec_fields ds (pre @ b1 @ b2 @ post) (length pre + length b1)
        = Inr (nvs', length pre + length b1 + length b2)"
    by simp
  show ?case
    by (simp add: d same nvs b h t add.assoc)
qed

lemma field_rt_maps:
  assumes "\<And>name td v b pre post. (name, td) \<in> set fs \<Longrightarrow> enc td v = Some b
             \<Longrightarrow> dec td (pre @ b @ post) (length pre) = Inr (v, length pre + length b)"
  shows "list_all2 field_rt (map (map_prod id enc) fs) (map (map_prod id dec) fs)"
proof -
  have one: "field_rt (map_prod id enc f) (map_prod id dec f)" if mem: "f \<in> set fs" for f
  proof -
    obtain name td where f: "f = (name, td)" by (cases f)
    from mem have "(name, td) \<in> set fs" by (simp add: f)
    then have "\<And>v b pre post. enc td v = Some b
        \<Longrightarrow> dec td (pre @ b @ post) (length pre) = Inr (v, length pre + length b)"
      by (rule assms)
    then show ?thesis
      by (simp add: field_rt_def f)
  qed
  have "list_all2 (\<lambda>x y. field_rt (map_prod id enc x) (map_prod id dec y)) fs fs"
    by (rule list.rel_refl_strong) (rule one)
  then show ?thesis
    by (simp add: list_all2_map1 list_all2_map2)
qed


lemma with_value_Inr:
  "dec bs c = Inr (x, c') \<Longrightarrow> with_value f dec bs c = Inr (f x, c')"
  by (simp add: with_value_def)

lemma enc_optional_roundtrip:
  assumes "\<And>x b pre post. enc x = Some b
             \<Longrightarrow> dec (pre @ b @ post) (length pre) = Inr (x, length pre + length b)"
    and "enc_optional enc ov = Some b"
  shows "dec_optional dec (pre @ b @ post) (length pre)
         = Inr (VOptional ov, length pre + length b)"
proof (cases ov)
  case None
  with assms(2) have b: "b = enc_bool False"
    by (simp add: enc_optional_def)
  show ?thesis
    by (simp add: dec_optional_def b None dec_bool_at length_enc_bool)
next
  case (Some x)
  with assms(2) obtain b1 where b1: "enc x = Some b1" and b: "b = enc_bool True @ b1"
    by (auto simp: enc_optional_def split: option.splits)
  have "dec ((pre @ enc_bool True) @ b1 @ post) (length (pre @ enc_bool True))
        = Inr (x, length (pre @ enc_bool True) + length b1)"
    using b1 by (rule assms(1))
  then have h: "dec (pre @ enc_bool True @ b1 @ post) (length pre + 4)
        = Inr (x, length pre + 4 + length b1)"
    by (simp add: length_enc_bool)
  have p: "dec_bool (pre @ enc_bool True @ b1 @ post) (length pre) = Inr (True, length pre + 4)"
    by (rule dec_bool_at)
  show ?thesis
    by (simp add: dec_optional_def b Some p h length_enc_bool add.assoc)
qed

lemma enc_union_roundtrip:
  assumes "\<And>td x b pre post. select_arm arms dflt d = Some td \<Longrightarrow> enc td x = Some b
             \<Longrightarrow> dec td (pre @ b @ post) (length pre) = Inr (x, length pre + length b)"
    and "enc_union (map (map_prod id enc) arms) (map_option enc dflt) d x = Some b"
  shows "dec_union (map (map_prod id dec) arms) (map_option dec dflt) (pre @ b @ post)
           (length pre)
         = Inr (VUnion d x, length pre + length b)"
proof -
  from assms(2) obtain tag td b1 where tag: "enc_sint 4 d = Some tag"
    and arm: "select_arm arms dflt d = Some td"
    and b1: "enc td x = Some b1" and b: "b = tag @ b1"
    by (auto simp: enc_union_def select_arm_map split: option.splits)
  have l4: "length tag = 4"
    using tag by (rule length_enc_sint)
  have d1: "dec_sint 4 (pre @ tag @ b1 @ post) (length pre) = Inr (d, length pre + 4)"
    using enc_sint_roundtrip [OF tag, of pre "b1 @ post"] by (simp add: l4)
  have "dec td ((pre @ tag) @ b1 @ post) (length (pre @ tag))
        = Inr (x, length (pre @ tag) + length b1)"
    using arm b1 by (rule assms(1))
  then have d2: "dec td (pre @ tag @ b1 @ post) (length pre + 4)
        = Inr (x, length pre + 4 + length b1)"
    by (simp add: l4)
  show ?thesis
    by (simp add: dec_union_def select_arm_map arm b d1 d2 l4 add.assoc)
qed

lemma enc_array_var_roundtrip:
  assumes "\<And>v b pre post. enc v = Some b
             \<Longrightarrow> dec (pre @ b @ post) (length pre) = Inr (v, length pre + length b)"
    and "enc_array_var maxlen enc vs = Some b"
  shows "dec_array_var maxlen dec (pre @ b @ post) (length pre)
         = Inr (VArray vs, length pre + length b)"
proof -
  from assms(2) obtain len b1 where le: "length vs \<le> maxlen"
    and len: "enc_uint 4 (int (length vs)) = Some len"
    and b1: "enc_many enc vs = Some b1" and b: "b = len @ b1"
    by (auto simp: enc_array_var_def split: if_splits option.splits)
  have l4: "length len = 4"
    using len by (rule length_enc_uint)
  have d1: "dec_uint 4 (pre @ len @ b1 @ post) (length pre) = Inr (length vs, length pre + 4)"
    using enc_uint_roundtrip [OF len, of pre "b1 @ post"] by (simp add: l4)
  have "dec_many (length vs) dec ((pre @ len) @ b1 @ post) (length (pre @ len))
        = Inr (vs, length (pre @ len) + length b1)"
    using assms(1) b1 by (intro enc_many_roundtrip) auto
  then have d2: "dec_many (length vs) dec (pre @ len @ b1 @ post) (length pre + 4)
        = Inr (vs, length pre + 4 + length b1)"
    by (simp add: l4)
  from d2 have d3: "with_value VArray (dec_many (length vs) dec) (pre @ len @ b1 @ post)
        (length pre + 4) = Inr (VArray vs, length pre + 4 + length b1)"
    by (simp add: with_value_def)
  show ?thesis
    using le by (simp add: dec_array_var_def b d1 d3 l4 add.assoc)
qed

lemma enc_enum_roundtrip:
  assumes "enc_enum p n label = Some b"
  shows "dec_enum p (pre @ b @ post) (length pre) = Inr (VEnum n label, length pre + length b)"
proof -
  from assms have r: "resolve_enum p n = Inr label" and e: "enc_sint 4 n = Some b"
    by (auto simp: enc_enum_def split: if_splits)
  have "dec_sint 4 (pre @ b @ post) (length pre) = Inr (n, length pre + length b)"
    using e by (rule enc_sint_roundtrip) simp
  then show ?thesis
    by (simp add: dec_enum_def r)
qed

lemma decode_encode_at:
  "encode td v = Some b
   \<Longrightarrow> decode td (pre @ b @ post) (length pre) = Inr (v, length pre + length b)"
proof (induction td arbitrary: v b pre post)
  case TUint32
  then obtain i where v: "v = VInt i" and e: "enc_uint 4 i = Some b"
    by (cases v) simp_all
  from enc_uint_roundtrip [OF e, of pre post] show ?case
    by (simp add: v with_value_def)
next
  case TInt32
  then obtain i where v: "v = VInt i" and e: "enc_sint 4 i = Some b"
    by (cases v) simp_all
  from enc_sint_roundtrip [OF e, of pre post] show ?case
    by (simp add: v with_value_def)
next
  case TUint64
  then obtain i where v: "v = VInt i" and e: "enc_uint 8 i = Some b"
    by (cases v) simp_all
  from enc_uint_roundtrip [OF e, of pre post] show ?case
    by (simp add: v with_value_def)
next
  case TInt64
  then obtain i where v: "v = VInt i" and e: "enc_sint 8 i = Some b"
    by (cases v) simp_all
  from enc_sint_roundtrip [OF e, of pre post] show ?case
    by (simp add: v with_value_def)
next
  case TBool
  then obtain x where v: "v = VBool x" and b: "b = enc_bool x"
    by (cases v) auto
  show ?case
    by (simp add: v b with_value_def dec_bool_at length_enc_bool)
next
  case (TEnum p)
  then obtain n label where v: "v = VEnum n label" and e: "enc_enum p n label = Some b"
    by (cases v) simp_all
  from enc_enum_roundtrip [OF e, of pre post] show ?case
    by (simp add: v)
next
  case (TOpaqueFixed n)
  then obtain raw where v: "v = VOpaque raw" and n: "length raw = n" and b: "b = enc_padded raw"
    by (cases v) (auto split: if_splits)
  from dec_padded_at [of raw pre post] show ?case
    by (simp add: v b n [symmetric] with_value_def)
next
  case (TOpaqueVar maxlen)
  then obtain raw where v: "v = VOpaque raw" and e: "enc_var maxlen raw = Some b"
    by (cases v) simp_all
  from enc_var_roundtrip [OF e, of pre post] show ?case
    by (simp add: v with_value_def)
next
  case (TString maxlen)
  then obtain s where v: "v = VString s" and e: "enc_var maxlen (map byte_of_char s) = Some b"
    by (cases v) simp_all
  have "map char_of_byte (map byte_of_char s) = s"
    by (simp add: char_of_byte_of_char comp_def)
  with enc_var_roundtrip [OF e, of pre post] show ?case
    by (simp add: v with_value_def)
next
  case (TArrayFixed n td)
  from TArrayFixed.prems obtain vs where v: "v = VArray vs" and n: "length vs = n"
    and e: "enc_many (encode td) vs = Some b"
    by (cases v) (auto split: if_splits)
  have "dec_many (length vs) (decode td) (pre @ b @ post) (length pre)
        = Inr (vs, length pre + length b)"
    using TArrayFixed.IH e by (intro enc_many_roundtrip) auto
  then show ?case
    by (simp add: v n with_value_def)
next
  case (TArrayVar maxlen td)
  from TArrayVar.prems obtain vs where v: "v = VArray vs"
    and e: "enc_array_var maxlen (encode td) vs = Some b"
    by (cases v) simp_all
  have "dec_array_var maxlen (decode td) (pre @ b @ post) (length pre)
        = Inr (VArray vs, length pre + length b)"
    using TArrayVar.IH e by (intro enc_array_var_roundtrip) auto
  then show ?case
    by (simp add: v)
next
  case (TRecord fs)
  from TRecord.prems obtain nvs where v: "v = VRecord nvs"
    and e: "enc_fields (map (map_prod id encode) fs) nvs = Some b"
    by (cases v) simp_all
  have "list_all2 field_rt (map (map_prod id encode) fs) (map (map_prod id decode) fs)"
  proof (rule field_rt_maps)
    fix name td v b pre post
    assume mem: "(name, td) \<in> set fs" and enc: "encode td v = Some b"
    show "decode td (pre @ b @ post) (length pre) = Inr (v, length pre + length b)"
      by (rule TRecord.IH [OF mem _ enc]) simp
  qed
  then have "dec_fields (map (map_prod id decode) fs) (pre @ b @ post) (length pre)
        = Inr (nvs, length pre + length b)"
    using e by (rule enc_fields_roundtrip)
  then show ?case
    by (simp add: v with_value_def)
next
  case (TUnion arms dflt)
  from TUnion.prems obtain d x where v: "v = VUnion d x"
    and e: "enc_union (map (map_prod id encode) arms) (map_option encode dflt) d x = Some b"
    by (cases v) simp_all
  have "dec_union (map (map_prod id decode) arms) (map_option decode dflt) (pre @ b @ post)
          (length pre)
        = Inr (VUnion d x, length pre + length b)"
  proof (rule enc_union_roundtrip [OF _ e])
    fix td x b pre post
    assume arm: "select_arm arms dflt d = Some td" and enc: "encode td x = Some b"
    from arm show "decode td (pre @ b @ post) (length pre) = Inr (x, length pre + length b)"
    proof (cases rule: select_arm_cases)
      case 1
      show ?thesis
        by (rule TUnion.IH(1) [OF 1 _ enc]) simp
    next
      case 2
      show ?thesis
        by (rule TUnion.IH(2) [OF _ enc]) (simp add: 2)
    qed
  qed
  then show ?case
    by (simp add: v)
next
  case (TOptional td)
  from TOptional.prems obtain ov where v: "v = VOptional ov"
    and e: "enc_optional (encode td) ov = Some b"
    by (cases v) simp_all
  have "dec_optional (decode td) (pre @ b @ post) (length pre)
        = Inr (VOptional ov, length pre + length b)"
    using TOptional.IH e by (intro enc_optional_roundtrip) auto
  then show ?case
    by (simp add: v)
next
  case TVoid
  then show ?case
    by (cases v) simp_all
qed


lemma valid_uint_encodes: "valid_uint k i \<Longrightarrow> \<exists>b. enc_uint k i = Some b"
  by (simp add: valid_uint_def enc_uint_def)

lemma valid_sint_encodes: "valid_sint k i \<Longrightarrow> \<exists>b. enc_sint k i = Some b"
  by (simp add: valid_sint_def enc_sint_def)

lemma valid_len_encodes:
  assumes "valid_len maxlen (length raw)"
  shows "\<exists>b. enc_var maxlen raw = Some b"
proof -
  from assms have le: "length raw \<le> maxlen" and lt: "length raw < 2 ^ 32"
    by (simp_all add: valid_len_def)
  from lt have "int (length raw) < 2 ^ 32"
    by (metis of_nat_less_iff of_nat_numeral of_nat_power)
  then have "\<exists>len. enc_uint 4 (int (length raw)) = Some len"
    by (simp add: enc_uint_def)
  with le show ?thesis
    by (auto simp: enc_var_def)
qed

lemma valid_many_encodes:
  assumes "\<And>v. v \<in> set vs \<Longrightarrow> ok v \<Longrightarrow> \<exists>b. enc v = Some b"
    and "list_all ok vs"
  shows "\<exists>b. enc_many enc vs = Some b"
  using assms
proof (induction vs)
  case Nil
  show ?case by simp
next
  case (Cons v vs)
  from Cons.prems obtain b1 where b1: "enc v = Some b1"
    by auto
  from Cons.prems have "\<exists>b. enc_many enc vs = Some b"
    by (intro Cons.IH) auto
  then obtain b2 where "enc_many enc vs = Some b2" ..
  with b1 show ?case by simp
qed

lemma valid_array_var_encodes:
  assumes "\<And>v. v \<in> set vs \<Longrightarrow> ok v \<Longrightarrow> \<exists>b. enc v = Some b"
    and "valid_len maxlen (length vs)" and "list_all ok vs"
  shows "\<exists>b. enc_array_var maxlen enc vs = Some b"
proof -
  from assms(2) have le: "length vs \<le> maxlen" and lt: "length vs < 2 ^ 32"
    by (simp_all add: valid_len_def)
  from lt have "int (length vs) < 2 ^ 32"
    by (metis of_nat_less_iff of_nat_numeral of_nat_power)
  then obtain len where len: "enc_uint 4 (int (length vs)) = Some len"
    by (simp add: enc_uint_def)
  from assms(1,3) obtain b1 where "enc_many enc vs = Some b1"
    using valid_many_encodes [of vs ok enc] by blast
  with le len show ?thesis
    by (simp add: enc_array_var_def)
qed

lemma valid_fields_encodes:
  assumes "list_all2 field_ok ps es"
    and "valid_fields ps nvs"
  shows "\<exists>b. enc_fields es nvs = Some b"
  using assms
proof (induction ps es arbitrary: nvs rule: list_all2_induct)
  case Nil
  then show ?case by (cases nvs) simp_all
next
  case (Cons p ps e es)
  obtain name ok where p: "p = (name, ok)" by (cases p)
  obtain name' enc where e: "e = (name', enc)" by (cases e)
  from Cons.hyps(1) have same: "name' = name"
    and enc: "\<And>v. ok v \<Longrightarrow> \<exists>b. enc v = Some b"
    by (simp_all add: field_ok_def p e)
  from Cons.prems obtain v nvs' where nvs: "nvs = (name, v) # nvs'"
    and okv: "ok v" and rest: "valid_fields ps nvs'"
    by (cases nvs) (auto simp: p)
  from enc [OF okv] obtain b1 where b1: "enc v = Some b1" ..
  from Cons.IH [OF rest] obtain b2 where b2: "enc_fields es nvs' = Some b2" ..
  show ?case
    by (simp add: e same nvs b1 b2)
qed

lemma field_ok_maps:
  assumes "\<And>name td v. (name, td) \<in> set fs \<Longrightarrow> ok td v \<Longrightarrow> \<exists>b. enc td v = Some b"
  shows "list_all2 field_ok (map (map_prod id ok) fs) (map (map_prod id enc) fs)"
proof -
  have one: "field_ok (map_prod id ok f) (map_prod id enc f)" if mem: "f \<in> set fs" for f
  proof -
    obtain name td where f: "f = (name, td)" by (cases f)
    from mem have "(name, td) \<in> set fs" by (simp add: f)
    then have "\<And>v. ok td v \<Longrightarrow> \<exists>b. enc td v = Some b"
      by (rule assms)
    then show ?thesis
      by (simp add: field_ok_def f)
  qed
  have "list_all2 (\<lambda>x y. field_ok (map_prod id ok x) (map_prod id enc y)) fs fs"
    by (rule list.rel_refl_strong) (rule one)
  then show ?thesis
    by (simp add: list_all2_map1 list_all2_map2)
qed

lemma valid_union_encodes:
  assumes "\<And>td. select_arm arms dflt d = Some td \<Longrightarrow> ok td x \<Longrightarrow> \<exists>b. enc td x = Some b"
    and "valid_sint 4 d"
    and "case select_arm (map (map_prod id ok) arms) (map_option ok dflt) d of
           None \<Rightarrow> False | Some p \<Rightarrow> p x"
  shows "\<exists>b. enc_union (map (map_prod id enc) arms) (map_option enc dflt) d x = Some b"
proof -
  from assms(3) obtain td where arm: "select_arm arms dflt d = Some td" and okx: "ok td x"
    by (auto simp: select_arm_map split: option.splits)
  from valid_sint_encodes [OF assms(2)] obtain tag where tag: "enc_sint 4 d = Some tag" ..
  from assms(1) [OF arm okx] obtain b1 where b1: "enc td x = Some b1" ..
  show ?thesis
    by (simp add: enc_union_def select_arm_map arm tag b1)
qed

lemma valid_encodes: "valid td v \<Longrightarrow> \<exists>b. encode td v = Some b"
proof (induction td arbitrary: v)
  case TUint32
  then show ?case by (cases v) (simp_all add: valid_uint_encodes)
next
  case TInt32
  then show ?case by (cases v) (simp_all add: valid_sint_encodes)
next
  case TUint64
  then show ?case by (cases v) (simp_all add: valid_uint_encodes)
next
  case TInt64
  then show ?case by (cases v) (simp_all add: valid_sint_encodes)
next
  case TBool
  then show ?case by (cases v) simp_all
next
  case (TEnum p)
  then show ?case by (cases v) (simp_all add: enc_enum_def valid_sint_encodes)
next
  case (TOpaqueFixed n)
  then show ?case by (cases v) simp_all
next
  case (TOpaqueVar maxlen)
  then show ?case by (cases v) (simp_all add: valid_len_encodes)
next
  case (TString maxlen)
  then show ?case by (cases v) (simp_all add: valid_len_encodes)
next
  case (TArrayFixed n td)
  from TArrayFixed.prems obtain vs where v: "v = VArray vs" and n: "length vs = n"
    and ok: "list_all (valid td) vs"
    by (cases v) simp_all
  have "\<exists>b. enc_many (encode td) vs = Some b"
    using TArrayFixed.IH ok by (intro valid_many_encodes [where ok = "valid td"]) auto
  then show ?case
    by (simp add: v n)
next
  case (TArrayVar maxlen td)
  from TArrayVar.prems obtain vs where v: "v = VArray vs"
    and len: "valid_len maxlen (length vs)" and ok: "list_all (valid td) vs"
    by (cases v) simp_all
  have "\<exists>b. enc_array_var maxlen (encode td) vs = Some b"
    using TArrayVar.IH len ok by (intro valid_array_var_encodes [where ok = "valid td"]) auto
  then show ?case
    by (simp add: v)
next
  case (TRecord fs)
  from TRecord.prems obtain nvs where v: "v = VRecord nvs"
    and ok: "valid_fields (map (map_prod id valid) fs) nvs"
    by (cases v) simp_all
  have "list_all2 field_ok (map (map_prod id valid) fs) (map (map_prod id encode) fs)"
  proof (rule field_ok_maps)
    fix name td v
    assume mem: "(name, td) \<in> set fs" and okv: "valid td v"
    show "\<exists>b. encode td v = Some b"
      by (rule TRecord.IH [OF mem _ okv]) simp
  qed
  then have "\<exists>b. enc_fields (map (map_prod id encode) fs) nvs = Some b"
    using ok by (rule valid_fields_encodes)
  then show ?case
    by (simp add: v)
next
  case (TUnion arms dflt)
  from TUnion.prems obtain d x where v: "v = VUnion d x" and d: "valid_sint 4 d"
    and ok: "case select_arm (map (map_prod id valid) arms) (map_option valid dflt) d of
               None \<Rightarrow> False | Some p \<Rightarrow> p x"
    by (cases v) simp_all
  have "\<exists>b. enc_union (map (map_prod id encode) arms) (map_option encode dflt) d x = Some b"
  proof (rule valid_union_encodes [OF _ d ok])
    fix td
    assume arm: "select_arm arms dflt d = Some td" and okx: "valid td x"
    from arm show "\<exists>b. encode td x = Some b"
    proof (cases rule: select_arm_cases)
      case 1
      show ?thesis
        by (rule TUnion.IH(1) [OF 1 _ okx]) simp
    next
      case 2
      show ?thesis
        by (rule TUnion.IH(2) [OF _ okx]) (simp add: 2)
    qed
  qed
  then show ?case
    by (simp add: v)
next
  case (TOptional td)
  from TOptional.prems obtain ov where v: "v = VOptional ov"
    by (cases v) simp_all
  show ?case
  proof (cases ov)
    case None
    then show ?thesis by (simp add: v enc_optional_def)
  next
    case (Some x)
    with TOptional.prems have "valid td x" by (simp add: v)
    then obtain b where "encode td x = Some b"
      using TOptional.IH by blast
    then show ?thesis by (simp add: v Some enc_optional_def)
  qed
next
  case TVoid
  then show ?case by (cases v) simp_all
qed

section \<open>The constant tables\<close>

text \<open>
  C1. For every table and every integer code, \<open>lookup\<close> returns the name the table's
  dict display records for the code when the code is one of its keys, and \<open>None\<close>
  when it is not.
\<close>

theorem lookup_table:
  "(lookup p code = Some name \<longleftrightarrow> (code, name) \<in> set (table_items p))
   \<and> (lookup p code = None \<longleftrightarrow> code \<notin> fst ` set (table_items p))"
  by (simp add: lookup_def table_of_Some_iff table_of_None_iff)

text \<open>
  C5. The codes marked fixed for all versions have the values the tables record:
  \<open>RDMA_MSG = 0\<close>, \<open>RDMA_NOMSG = 1\<close>, \<open>RDMA_ERROR = 4\<close> and \<open>ERR_VERS = 1\<close>, and the table
  of each maps the code back to its name.
\<close>

theorem fixed_codes:
  "RDMA_MSG = 0 \<and> RDMA_NOMSG = 1 \<and> RDMA_ERROR = 4 \<and> ERR_VERS = 1
   \<and> rdma_proc RDMA_MSG = Some ''RDMA_MSG''
   \<and> rdma_proc RDMA_NOMSG = Some ''RDMA_NOMSG''
   \<and> rdma_proc RDMA_ERROR = Some ''RDMA_ERROR''
   \<and> rpc_rdma_errcode ERR_VERS = Some ''ERR_VERS''
   \<and> set fixed_for_all_versions
       = {(Rdma_proc, ''RDMA_MSG''), (Rdma_proc, ''RDMA_NOMSG''),
          (Rdma_proc, ''RDMA_ERROR''), (Rpc_rdma_errcode, ''ERR_VERS'')}"
  by (auto simp add: RDMA_MSG_def RDMA_NOMSG_def RDMA_ERROR_def ERR_VERS_def
      rdma_proc_def rpc_rdma_errcode_def rdma_proc_items_def rpc_rdma_errcode_items_def
      dict_literal_def fixed_for_all_versions_def)

text \<open>
  C6. The size limits: \<open>LM_MAXSTRLEN = 1024\<close>, \<open>MAXNETOBJ_SZ = 1024\<close> and
  \<open>MAXNAMELEN = LM_MAXSTRLEN + 1 = 1025\<close>, as integers.
\<close>

theorem size_limits:
  "LM_MAXSTRLEN = 1024 \<and> MAXNETOBJ_SZ = 1024
   \<and> MAXNAMELEN = LM_MAXSTRLEN + 1 \<and> MAXNAMELEN = 1025"
  by (simp add: LM_MAXSTRLEN_def MAXNETOBJ_SZ_def MAXNAMELEN_def)

text \<open>
  C8. In every enum section, each binding \<open>NAME = n\<close> has the entry \<open>n : "NAME"\<close> in the
  section's table, and each entry of the table comes from such a binding.
\<close>

theorem tables_agree_with_constants:
  "((name, n) \<in> set (enum_constants p) \<longrightarrow> table_of p n = Some name)
   \<and> (table_of p n = Some name \<longrightarrow> (name, n) \<in> set (enum_constants p))"
  by (simp add: table_of_Some_iff items_mem_iff_constants)

theorem tables_agree_with_constants_witness:
  "(''NLMPROC4_SHARE'', 20) \<in> set (enum_constants Nlm_proc4)
   \<and> table_of Nlm_proc4 20 = Some ''NLMPROC4_SHARE''
   \<and> table_of Rdma_proc 4 = Some ''RDMA_ERROR''
   \<and> (''RDMA_ERROR'', 4) \<in> set (enum_constants Rdma_proc)"
proof -
  have c: "(''NLMPROC4_SHARE'', 20) \<in> set (enum_constants Nlm_proc4)"
    by (simp add: NLMPROC4_SHARE_def)
  have t: "table_of Rdma_proc 4 = Some ''RDMA_ERROR''"
    by (simp add: rdma_proc_def rdma_proc_items_def dict_literal_def)
  from c t show ?thesis
    using tables_agree_with_constants [of "''NLMPROC4_SHARE''" 20 Nlm_proc4]
      tables_agree_with_constants [of "''RDMA_ERROR''" 4 Rdma_proc]
    by simp
qed

text \<open>
  C9. Every table is injective: two codes that a table maps to the same name are equal,
  so the name determines the code.
\<close>

theorem tables_injective:
  "table_of p c1 = Some name \<and> table_of p c2 = Some name \<longrightarrow> c1 = c2"
  by (auto simp add: table_of_map_of intro: map_of_inj_values [OF distinct_names])

theorem tables_injective_witness:
  "table_of Nlm4_stats 7 = Some ''NLM4_STALE_FH''
   \<and> table_of Nlm4_stats (3 + 4) = Some ''NLM4_STALE_FH'' \<and> (7::int) = 3 + 4"
proof -
  have t: "table_of Nlm4_stats 7 = Some ''NLM4_STALE_FH''"
    by (simp add: nlm4_stats_def nlm4_stats_items_def dict_literal_def)
  then have t': "table_of Nlm4_stats (3 + 4) = Some ''NLM4_STALE_FH''"
    by simp
  from t t' show ?thesis
    using tables_injective [of Nlm4_stats 7 "''NLM4_STALE_FH''" "3 + 4"] by simp
qed

text \<open>
  C10. The keys of \<open>nlm_proc4\<close> are exactly 0 to 15 and 20 to 23: the codes 16, 17, 18
  and 19 are not keys and reading them gives \<open>None\<close>, while 20 to 23 are found.
\<close>

theorem nlm_proc4_key_set:
  "dom nlm_proc4 = {0..15} \<union> {20..23}
   \<and> (\<forall>c \<in> {16..19}. nlm_proc4 c = None)
   \<and> (\<forall>c \<in> {20..23}. \<exists>name. nlm_proc4 c = Some name)"
proof -
  have m: "nlm_proc4 = map_of nlm_proc4_items"
    using table_of_map_of [of Nlm_proc4] by simp
  have d: "dom nlm_proc4 = {0..15} \<union> {20..23}"
    by (simp only: m dom_map_of_conv_image_fst nlm_proc4_keys)
  have "\<forall>c \<in> {16..19}. c \<notin> dom nlm_proc4"
    unfolding d by auto
  moreover have "\<forall>c \<in> {20..23}. c \<in> dom nlm_proc4"
    unfolding d by auto
  ultimately show ?thesis
    using d by (simp only: domIff not_not not_None_eq) blast
qed

theorem nlm_proc4_key_set_witness:
  "(17::int) \<in> {16..19} \<and> nlm_proc4 17 = None
   \<and> (22::int) \<in> {20..23} \<and> (\<exists>name. nlm_proc4 22 = Some name)"
proof -
  have a: "(17::int) \<in> {16..19}" and b: "(22::int) \<in> {20..23}"
    by simp_all
  from a b show ?thesis
    using nlm_proc4_key_set by blast
qed

section \<open>Decoding\<close>

lemma fixed_enum_iff: "fixed_enum p \<longleftrightarrow> p = Rdma_proc \<or> p = Rpc_rdma_errcode"
  by (cases p) (simp_all add: fixed_enum_def fixed_for_all_versions_def)

lemma dec_padded_not_exceeded: "dec_padded n bs c \<noteq> Inl LengthExceeded"
  by (simp add: dec_padded_def read_def split: sum.splits prod.splits)

lemma with_value_error: "with_value f dec bs c = Inl e \<longleftrightarrow> dec bs c = Inl e"
  by (simp add: with_value_def split: sum.splits prod.splits)



text \<open>
  C3. Decoding an NLM opaque field whose declared length, the 32-bit length read at the
  cursor, is greater than \<open>MAXNETOBJ_SZ\<close> = 1024 fails with \<open>LengthExceeded\<close>; with a
  declared length of at most 1024 it does not.
\<close>

theorem netobj_length_limit:
  "dec_uint 4 bs c = Inr (n, c1)
   \<Longrightarrow> (1024 < n \<longrightarrow> decode nlm_netobj bs c = Inl LengthExceeded)
     \<and> (n \<le> 1024 \<longrightarrow> decode nlm_netobj bs c \<noteq> Inl LengthExceeded)
     \<and> MAXNETOBJ_SZ = 1024"
  by (simp add: nlm_netobj_def MAXNETOBJ_SZ_def with_value_error dec_var_def
      dec_padded_not_exceeded)

theorem netobj_length_limit_witness:
  "dec_uint 4 [0, 0, 4, 1] 0 = Inr (1025, 4)
   \<and> (1024::nat) < 1025
   \<and> decode nlm_netobj [0, 0, 4, 1] 0 = Inl LengthExceeded
   \<and> dec_uint 4 [0, 0, 4, 0, 9] 0 = Inr (1024, 4)
   \<and> (1024::nat) \<le> 1024
   \<and> decode nlm_netobj [0, 0, 4, 0, 9] 0 \<noteq> Inl LengthExceeded"
proof -
  have a: "dec_uint 4 [0, 0, 4, 1] 0 = Inr (1025, 4)"
    by (simp add: dec_uint_def read_def be_decode_def)
  have b: "dec_uint 4 [0, 0, 4, 0, 9] 0 = Inr (1024, 4)"
    by (simp add: dec_uint_def read_def be_decode_def)
  from netobj_length_limit [OF a] netobj_length_limit [OF b] a b show ?thesis
    by simp
qed

text \<open>
  C4. In a field of an enum that is not fixed for all versions, a raw code that is not in
  the enum's table decodes to a value that keeps the raw code, with the label
  \<^verbatim>\<open>UNKNOWN(n)\<close>; the decode does not fail.
\<close>

theorem enum_tolerance:
  "\<not> fixed_enum p \<Longrightarrow> lookup p n = None \<Longrightarrow> dec_sint 4 bs c = Inr (n, c1)
   \<Longrightarrow> decode (TEnum p) bs c = Inr (VEnum n (''UNKNOWN('' @ show_int n @ '')''), c1)"
  by (simp add: dec_enum_def resolve_enum_def)

theorem enum_tolerance_witness:
  "\<not> fixed_enum Nlm_proc4 \<and> lookup Nlm_proc4 17 = None
   \<and> dec_sint 4 [0, 0, 0, 17] 0 = Inr (17, 4)
   \<and> decode (TEnum Nlm_proc4) [0, 0, 0, 17] 0 = Inr (VEnum 17 ''UNKNOWN(17)'', 4)"
proof -
  have f: "\<not> fixed_enum Nlm_proc4"
    by (simp add: fixed_enum_iff)
  have l: "lookup Nlm_proc4 17 = None"
    using table_of_None_iff [of Nlm_proc4 17] by (simp add: lookup_def nlm_proc4_items_def)
  have d: "dec_sint 4 [0, 0, 0, 17] 0 = Inr (17, 4)"
    by (simp add: dec_sint_def dec_uint_def read_def be_decode_def)
  have s: "show_int 17 = ''17''"
    by (simp add: show_int_def show_nat.simps digit_def)
  from enum_tolerance [OF f l d] f l d s show ?thesis
    by simp
qed

text \<open>
  C7. For every type descriptor and every valid value of it, the value encodes, and
  decoding the encoding from cursor 0 gives the value back and consumes all the bytes.
\<close>

theorem xdr_roundtrip:
  "valid td v \<Longrightarrow> \<exists>bs. encode td v = Some bs \<and> decode td bs 0 = Inr (v, length bs)"
proof -
  assume "valid td v"
  then obtain bs where e: "encode td v = Some bs"
    using valid_encodes by blast
  from decode_encode_at [OF e, of "[]" "[]"] have "decode td bs 0 = Inr (v, length bs)"
    by simp
  with e show ?thesis by blast
qed

theorem xdr_roundtrip_witness:
  "valid
     (TRecord [(''stat'', TEnum Nlm4_stats), (''n'', TInt32), (''fh'', TOpaqueVar 1024),
        (''u'', TUnion [(0, TVoid), (1, TRecord [(''x'', TUint64)])] None),
        (''p'', TOptional TBool), (''a'', TOptional TBool)])
     (VRecord [(''stat'', VEnum 1 ''NLM4_DENIED''), (''n'', VInt (- 5)),
        (''fh'', VOpaque [1, 2, 3]), (''u'', VUnion 1 (VRecord [(''x'', VInt 7)])),
        (''p'', VOptional (Some (VBool True))), (''a'', VOptional None)])
   \<and> (\<exists>bs.
        encode
          (TRecord [(''stat'', TEnum Nlm4_stats), (''n'', TInt32), (''fh'', TOpaqueVar 1024),
             (''u'', TUnion [(0, TVoid), (1, TRecord [(''x'', TUint64)])] None),
             (''p'', TOptional TBool), (''a'', TOptional TBool)])
          (VRecord [(''stat'', VEnum 1 ''NLM4_DENIED''), (''n'', VInt (- 5)),
             (''fh'', VOpaque [1, 2, 3]), (''u'', VUnion 1 (VRecord [(''x'', VInt 7)])),
             (''p'', VOptional (Some (VBool True))), (''a'', VOptional None)])
          = Some bs
        \<and> decode
          (TRecord [(''stat'', TEnum Nlm4_stats), (''n'', TInt32), (''fh'', TOpaqueVar 1024),
             (''u'', TUnion [(0, TVoid), (1, TRecord [(''x'', TUint64)])] None),
             (''p'', TOptional TBool), (''a'', TOptional TBool)])
          bs 0
          = Inr (VRecord [(''stat'', VEnum 1 ''NLM4_DENIED''), (''n'', VInt (- 5)),
             (''fh'', VOpaque [1, 2, 3]), (''u'', VUnion 1 (VRecord [(''x'', VInt 7)])),
             (''p'', VOptional (Some (VBool True))), (''a'', VOptional None)], length bs))"
proof -
  have l: "lookup Nlm4_stats 1 = Some ''NLM4_DENIED''"
    using table_of_Some_iff [of Nlm4_stats 1 "''NLM4_DENIED''"]
    by (simp add: lookup_def nlm4_stats_items_def)
  have h: "valid
     (TRecord [(''stat'', TEnum Nlm4_stats), (''n'', TInt32), (''fh'', TOpaqueVar 1024),
        (''u'', TUnion [(0, TVoid), (1, TRecord [(''x'', TUint64)])] None),
        (''p'', TOptional TBool), (''a'', TOptional TBool)])
     (VRecord [(''stat'', VEnum 1 ''NLM4_DENIED''), (''n'', VInt (- 5)),
        (''fh'', VOpaque [1, 2, 3]), (''u'', VUnion 1 (VRecord [(''x'', VInt 7)])),
        (''p'', VOptional (Some (VBool True))), (''a'', VOptional None)])"
    by (simp add: valid_sint_def valid_uint_def valid_len_def select_arm_def
        resolve_enum_def l)
  from xdr_roundtrip [OF h] h show ?thesis
    by blast
qed

end
